theory Spec2Isabelle
  imports Main "HOL-Library.Char_ord"
begin

section \<open>The C library as the program uses it\<close>

text \<open>
  C characters are modelled by HOL's \<open>char\<close> (one byte). Arithmetic on characters
  (\<^verbatim>\<open>'0' + rand() % 10\<close>) goes through \<open>of_char\<close> and \<open>char_of\<close>; \<open>char_of\<close> reduces
  modulo 256, as the conversion to \<^verbatim>\<open>char\<close> does.

  A \<^verbatim>\<open>char *\<close> argument is modelled by the bytes of the object it points into, from the
  pointer to the end of the object. Reading or writing past the last byte is undefined
  behaviour; it is the result \<open>None\<close> of every function below.
\<close>

abbreviation NUL :: char where
  "NUL \<equiv> CHR 0x00"

text \<open>The string that a \<^verbatim>\<open>char *\<close> into this memory denotes: the bytes before the first NUL.\<close>

definition c_string :: "char list \<Rightarrow> string" where
  "c_string mem = takeWhile (\<lambda>c. c \<noteq> NUL) mem"

text \<open>\<^verbatim>\<open>p[i] = c\<close> on an array object; an index outside the object is undefined behaviour.\<close>

definition store :: "char list \<Rightarrow> int \<Rightarrow> char \<Rightarrow> char list option" where
  "store mem i c = (if 0 \<le> i \<and> i < int (length mem) then Some (mem[nat i := c]) else None)"

text \<open>
  \<^verbatim>\<open>tolower\<close>, \<^verbatim>\<open>isdigit\<close> and \<^verbatim>\<open>isspace\<close> in the "C" locale (the program never calls
  \<^verbatim>\<open>setlocale\<close>).
\<close>

definition tolower :: "char \<Rightarrow> char" where
  "tolower c = (if CHR ''A'' \<le> c \<and> c \<le> CHR ''Z'' then char_of (of_char c + (32::nat)) else c)"

definition isdigit :: "char \<Rightarrow> bool" where
  "isdigit c \<longleftrightarrow> CHR ''0'' \<le> c \<and> c \<le> CHR ''9''"

definition isspace :: "char \<Rightarrow> bool" where
  "isspace c \<longleftrightarrow> c = CHR '' '' \<or> (CHR 0x09 \<le> c \<and> c \<le> CHR 0x0D)"

text \<open>
  The process-wide random source of \<^verbatim>\<open>rand\<close>: \<open>draws\<close> is the sequence of values the
  coming calls of \<^verbatim>\<open>rand()\<close> return (each in \<open>0..RAND_MAX\<close>, hence a natural number), and
  \<open>srand_calls\<close> counts the calls of \<^verbatim>\<open>srand\<close> made so far in the process.
\<close>

record rand_source =
  draws :: "nat \<Rightarrow> nat"
  srand_calls :: nat

definition rand :: "rand_source \<Rightarrow> nat \<times> rand_source" where
  "rand s = (draws s 0, s\<lparr>draws := (\<lambda>k. draws s (Suc k))\<rparr>)"

text \<open>
  \<^verbatim>\<open>srand(seed)\<close> restarts the sequence; which sequence a seed stands for is the C
  library's business and is the parameter \<open>prng\<close>. No function of the program calls it.
\<close>

definition srand :: "(nat \<Rightarrow> nat \<Rightarrow> nat) \<Rightarrow> nat \<Rightarrow> rand_source \<Rightarrow> rand_source" where
  "srand prng seed s = \<lparr>draws = prng seed, srand_calls = Suc (srand_calls s)\<rparr>"

text \<open>At process start no \<^verbatim>\<open>srand\<close> has happened; \<^verbatim>\<open>rand\<close> then behaves as after \<^verbatim>\<open>srand(1)\<close>.\<close>

definition process_start :: "(nat \<Rightarrow> nat \<Rightarrow> nat) \<Rightarrow> rand_source" where
  "process_start prng = \<lparr>draws = prng 1, srand_calls = 0\<rparr>"


section \<open>Password generation (server, \<^verbatim>\<open>libs/password/password.c\<close>)\<close>

text \<open>
  \<^verbatim>\<open>PasswordType\<close> is a C enumeration: an integer type whose enumerators are 0 to 4. A
  variable of the type can hold other integers, which \<^verbatim>\<open>generate_password\<close>'s switch
  has no case for.
\<close>

type_synonym PasswordType = int

definition NUMERIC :: PasswordType where "NUMERIC = 0"
definition ALPHA :: PasswordType where "ALPHA = 1"
definition MIXED :: PasswordType where "MIXED = 2"
definition SECURE :: PasswordType where "SECURE = 3"
definition UNAMBIGUOUS :: PasswordType where "UNAMBIGUOUS = 4"

text \<open>
  The five generators share one loop,
  \<^verbatim>\<open>for (int i = 0; i < length; i++) password[i] = <character>;\<close>
  and differ in the character expression only, which is the parameter \<open>pick\<close>: it
  consumes draws of the random source and yields the character.
\<close>

function generate_loop ::
  "(rand_source \<Rightarrow> char \<times> rand_source) \<Rightarrow> int \<Rightarrow> int \<Rightarrow> char list \<Rightarrow> rand_source
     \<Rightarrow> (char list \<times> rand_source) option" where
  "generate_loop pick i len pw s =
     (if i < len then
        (case pick s of (c, s') \<Rightarrow>
           (case store pw i c of
              None \<Rightarrow> None
            | Some pw' \<Rightarrow> generate_loop pick (i + 1) len pw' s'))
      else Some (pw, s))"
  by pat_completeness auto
termination
  by (relation "measure (\<lambda>(pick, i, len, pw, s). nat (len - i))") auto

text \<open>\<^verbatim>\<open>password[length] = '\0';\<close> after the loop.\<close>

definition terminate_password ::
  "int \<Rightarrow> (char list \<times> rand_source) option \<Rightarrow> (char list \<times> rand_source) option" where
  "terminate_password len r =
     (case r of
        None \<Rightarrow> None
      | Some (pw, s) \<Rightarrow> (case store pw len NUL of None \<Rightarrow> None | Some pw' \<Rightarrow> Some (pw', s)))"

text \<open>\<^verbatim>\<open>'0' + rand() % 10\<close>\<close>

definition numeric_char :: "rand_source \<Rightarrow> char \<times> rand_source" where
  "numeric_char s = (case rand s of (r, s') \<Rightarrow> (char_of (of_char CHR ''0'' + r mod 10), s'))"

definition generate_numeric ::
  "char list \<Rightarrow> int \<Rightarrow> rand_source \<Rightarrow> (char list \<times> rand_source) option" where
  "generate_numeric pw len s = terminate_password len (generate_loop numeric_char 0 len pw s)"

text \<open>\<^verbatim>\<open>'a' + rand() % 26\<close>\<close>

definition alpha_char :: "rand_source \<Rightarrow> char \<times> rand_source" where
  "alpha_char s = (case rand s of (r, s') \<Rightarrow> (char_of (of_char CHR ''a'' + r mod 26), s'))"

definition generate_alpha ::
  "char list \<Rightarrow> int \<Rightarrow> rand_source \<Rightarrow> (char list \<times> rand_source) option" where
  "generate_alpha pw len s = terminate_password len (generate_loop alpha_char 0 len pw s)"

text \<open>
  \<^verbatim>\<open>(rand() % 2) ? 'a' + rand() % 26 : '0' + rand() % 10\<close>: the condition is evaluated
  first, then the chosen branch alone, so every character costs two draws.
\<close>

definition mixed_char :: "rand_source \<Rightarrow> char \<times> rand_source" where
  "mixed_char s =
     (case rand s of (coin, s') \<Rightarrow>
        if coin mod 2 \<noteq> 0
        then (case rand s' of (r, s'') \<Rightarrow> (char_of (of_char CHR ''a'' + r mod 26), s''))
        else (case rand s' of (r, s'') \<Rightarrow> (char_of (of_char CHR ''0'' + r mod 10), s'')))"

definition generate_mixed ::
  "char list \<Rightarrow> int \<Rightarrow> rand_source \<Rightarrow> (char list \<times> rand_source) option" where
  "generate_mixed pw len s = terminate_password len (generate_loop mixed_char 0 len pw s)"

text \<open>
  \<^verbatim>\<open>charset[rand() % (sizeof(charset) - 1)]\<close>: \<^verbatim>\<open>sizeof(charset) - 1\<close> is the number of
  characters of the literal, its terminator not counted.
\<close>

definition secure_charset :: string where
  "secure_charset =
     ''abcdefghijklmnopqrstuvwxyzABCDEFGHIJKLMNOPQRSTUVWXYZ0123456789!@#$%^&*()''"

definition secure_char :: "rand_source \<Rightarrow> char \<times> rand_source" where
  "secure_char s =
     (case rand s of (r, s') \<Rightarrow> (secure_charset ! (r mod length secure_charset), s'))"

definition generate_secure ::
  "char list \<Rightarrow> int \<Rightarrow> rand_source \<Rightarrow> (char list \<times> rand_source) option" where
  "generate_secure pw len s = terminate_password len (generate_loop secure_char 0 len pw s)"

definition unambiguous_charset :: string where
  "unambiguous_charset = ''abcdefghjkmnpqrtuvwxyACDEFGHJKLMNPQRTUVWXY34679!@#$%^&*()''"

definition unambiguous_char :: "rand_source \<Rightarrow> char \<times> rand_source" where
  "unambiguous_char s =
     (case rand s of (r, s') \<Rightarrow>
        (unambiguous_charset ! (r mod length unambiguous_charset), s'))"

definition generate_unambiguous ::
  "char list \<Rightarrow> int \<Rightarrow> rand_source \<Rightarrow> (char list \<times> rand_source) option" where
  "generate_unambiguous pw len s =
     terminate_password len (generate_loop unambiguous_char 0 len pw s)"

text \<open>The switch has five cases and no default: any other value falls through it.\<close>

definition generate_password ::
  "char list \<Rightarrow> PasswordType \<Rightarrow> int \<Rightarrow> rand_source \<Rightarrow> (char list \<times> rand_source) option" where
  "generate_password pw t len s =
     (if t = NUMERIC then generate_numeric pw len s
      else if t = ALPHA then generate_alpha pw len s
      else if t = MIXED then generate_mixed pw len s
      else if t = SECURE then generate_secure pw len s
      else if t = UNAMBIGUOUS then generate_unambiguous pw len s
      else Some (pw, s))"


section \<open>Input checks (client, \<^verbatim>\<open>libs/password/password.c\<close>)\<close>

definition keep_generating :: "char \<Rightarrow> char \<Rightarrow> bool" where
  "keep_generating type type_for_ending \<longleftrightarrow> tolower type \<noteq> tolower type_for_ending"

text \<open>
  \<^verbatim>\<open>strchr(s, c) != NULL\<close>: the bytes are compared with \<open>c\<close> one by one up to and
  including the terminating NUL, which counts as part of the string.
\<close>

fun strchr_found :: "char list \<Rightarrow> char \<Rightarrow> bool option" where
  "strchr_found [] c = None"
| "strchr_found (x # xs) c =
     (if x = c then Some True else if x = NUL then Some False else strchr_found xs c)"

definition control_type :: "char list \<Rightarrow> char \<Rightarrow> bool option" where
  "control_type allowed_type type = strchr_found allowed_type type"

text \<open>
  \<^verbatim>\<open>atoi\<close>: white space is skipped, an optional sign is read, then decimal digits up to
  the first other character. ISO C leaves the result open when the value does not fit an
  \<^verbatim>\<open>int\<close>; the model follows the C library the program runs on (glibc, 64-bit \<^verbatim>\<open>long\<close>),
  where \<^verbatim>\<open>atoi(nptr)\<close> is \<^verbatim>\<open>(int) strtol(nptr, NULL, 10)\<close>: \<^verbatim>\<open>strtol\<close> saturates at
  \<open>LONG_MIN\<close> and \<open>LONG_MAX\<close>, and the conversion to the 32-bit \<^verbatim>\<open>int\<close> keeps the low 32
  bits.
\<close>

definition INT_MAX :: int where "INT_MAX = 2147483647"
definition INT_MIN :: int where "INT_MIN = - 2147483648"
definition LONG_MAX :: int where "LONG_MAX = 9223372036854775807"
definition LONG_MIN :: int where "LONG_MIN = - 9223372036854775808"

definition strtol_saturate :: "int \<Rightarrow> int" where
  "strtol_saturate v = max LONG_MIN (min LONG_MAX v)"

definition int_of_long :: "int \<Rightarrow> int" where
  "int_of_long v = (v - INT_MIN) mod 4294967296 + INT_MIN"

fun atoi_digits :: "char list \<Rightarrow> nat \<Rightarrow> nat option" where
  "atoi_digits [] acc = None"
| "atoi_digits (c # cs) acc =
     (if isdigit c then atoi_digits cs (10 * acc + (of_char c - of_char CHR ''0''))
      else Some acc)"

fun atoi_sign :: "char list \<Rightarrow> int option" where
  "atoi_sign [] = None"
| "atoi_sign (c # cs) =
     (if c = CHR ''-'' then map_option (\<lambda>v. - int v) (atoi_digits cs 0)
      else if c = CHR ''+'' then map_option int (atoi_digits cs 0)
      else map_option int (atoi_digits (c # cs) 0))"

fun atoi_space :: "char list \<Rightarrow> int option" where
  "atoi_space [] = None"
| "atoi_space (c # cs) = (if isspace c then atoi_space cs else atoi_sign (c # cs))"

definition atoi :: "char list \<Rightarrow> int option" where
  "atoi nptr =
     (case atoi_space nptr of
        None \<Rightarrow> None
      | Some v \<Rightarrow> Some (int_of_long (strtol_saturate v)))"

text \<open>
  The loop of \<^verbatim>\<open>control_length\<close>,
  \<^verbatim>\<open>for (int i = 0; length[i] != '\0'; i++) if (!isdigit(length[i])) return false;\<close>
  with \<open>Some False\<close> for the early return and \<open>Some True\<close> for leaving the loop at the
  terminator.
\<close>

fun control_length_loop :: "char list \<Rightarrow> bool option" where
  "control_length_loop [] = None"
| "control_length_loop (c # cs) =
     (if c = NUL then Some True else if \<not> isdigit c then Some False else control_length_loop cs)"

definition control_length :: "char list \<Rightarrow> int \<Rightarrow> int \<Rightarrow> bool option" where
  "control_length len min_length max_length =
     (case control_length_loop len of
        None \<Rightarrow> None
      | Some False \<Rightarrow> Some False
      | Some True \<Rightarrow>
          (case atoi len of
             None \<Rightarrow> None
           | Some numerical_length \<Rightarrow>
               Some (numerical_length \<ge> min_length \<and> numerical_length \<le> max_length)))"


section \<open>The records on the wire (\<^verbatim>\<open>libs/protocol/protocol.h\<close>)\<close>

definition BUFFER_SIZE :: nat where "BUFFER_SIZE = 1024"
definition MAX_PASSWORD_LENGTH :: nat where "MAX_PASSWORD_LENGTH = 32"
definition MIN_PASSWORD_LENGTH :: nat where "MIN_PASSWORD_LENGTH = 6"

text \<open>
  \<^verbatim>\<open>struct { char type; char length[BUFFER_SIZE]; }\<close> and
  \<^verbatim>\<open>struct { char password[MAX_PASSWORD_LENGTH + 1]; }\<close>, as the client's header declares
  them. The fields \<open>type\<close>, \<open>length\<close> and \<open>password\<close> carry the suffix \<open>_field\<close> here.
\<close>

record PasswordRequest =
  type_field :: char
  length_field :: "char list"

record PasswordResponse =
  password_field :: "char list"

text \<open>The arrays have their declared sizes.\<close>

definition request_ok :: "PasswordRequest \<Rightarrow> bool" where
  "request_ok r \<longleftrightarrow> length (length_field r) = BUFFER_SIZE"

definition response_ok :: "PasswordResponse \<Rightarrow> bool" where
  "response_ok r \<longleftrightarrow> length (password_field r) = MAX_PASSWORD_LENGTH + 1"

text \<open>
  The bytes of the two objects, which \<^verbatim>\<open>sendto\<close> reads and \<^verbatim>\<open>recvfrom\<close> writes. All
  members are \<^verbatim>\<open>char\<close>, so there is no padding.
\<close>

definition sizeof_PasswordRequest :: nat where
  "sizeof_PasswordRequest = 1 + BUFFER_SIZE"

definition sizeof_PasswordResponse :: nat where
  "sizeof_PasswordResponse = MAX_PASSWORD_LENGTH + 1"

definition request_bytes :: "PasswordRequest \<Rightarrow> char list" where
  "request_bytes r = type_field r # length_field r"

text \<open>
  Reading the record back from its bytes. The bytes of a record are never empty, and
  \<open>recvfrom\<close> keeps their number (lemma \<open>length_recvfrom\<close>), so \<open>hd\<close> and \<open>tl\<close> below are
  never applied to the empty list by the functions that receive.
\<close>

definition request_of_bytes :: "char list \<Rightarrow> PasswordRequest" where
  "request_of_bytes bs = \<lparr>type_field = hd bs, length_field = tl bs\<rparr>"

definition response_bytes :: "PasswordResponse \<Rightarrow> char list" where
  "response_bytes r = password_field r"

definition response_of_bytes :: "char list \<Rightarrow> PasswordResponse" where
  "response_of_bytes bs = \<lparr>password_field = bs\<rparr>"


section \<open>The datagram socket\<close>

text \<open>
  \<^verbatim>\<open>sendto(socket, buf, len, ...)\<close>: either the transport takes the \<open>len\<close> bytes as one
  datagram and the call returns \<open>len\<close>, or the call fails with \<open>-1\<close> and nothing is sent.
  Which of the two happens is the environment's choice \<open>ok\<close>.
\<close>

definition sendto :: "bool \<Rightarrow> char list \<Rightarrow> int \<times> char list option" where
  "sendto ok buf = (if ok then (int (length buf), Some buf) else (- 1, None))"

text \<open>
  \<^verbatim>\<open>recvfrom(socket, buf, len, ...)\<close>, where \<open>mem\<close> holds the \<open>len\<close> bytes of the object
  that \<open>buf\<close> points to. \<open>None\<close> is a call that fails (it returns \<open>-1\<close> and leaves the
  object alone); \<open>Some d\<close> is a call that delivers the datagram \<open>d\<close>: its first bytes, at
  most \<open>len\<close> of them, replace the first bytes of the object, and their number is returned.
  A datagram longer than \<open>len\<close> is cut to \<open>len\<close> bytes where the platform delivers it
  (POSIX); where the platform fails the call on it (Winsock), the call is a \<open>None\<close>.
\<close>

definition recvfrom :: "char list option \<Rightarrow> char list \<Rightarrow> int \<times> char list" where
  "recvfrom incoming mem =
     (case incoming of
        None \<Rightarrow> (- 1, mem)
      | Some d \<Rightarrow> (int (min (length d) (length mem)),
                   take (length mem) d @ drop (length d) mem))"


section \<open>Client (\<^verbatim>\<open>UDP_client.c\<close>)\<close>

text \<open>
  The result of \<^verbatim>\<open>send_request\<close> and the datagram it has put on the network, if any.
\<close>

definition send_request :: "bool \<Rightarrow> PasswordRequest \<Rightarrow> bool \<times> char list option" where
  "send_request ok password_request =
     (case sendto ok (request_bytes password_request) of
        (sent, datagram) \<Rightarrow>
          (if sent \<noteq> int sizeof_PasswordRequest then False else True, datagram))"

text \<open>The result of \<^verbatim>\<open>receive_response\<close> and the contents of \<^verbatim>\<open>*response_msg\<close> after it.\<close>

definition receive_response ::
  "char list option \<Rightarrow> PasswordResponse \<Rightarrow> bool \<times> PasswordResponse" where
  "receive_response incoming response_msg =
     (case recvfrom incoming (response_bytes response_msg) of
        (rcv_msg_size, mem) \<Rightarrow>
          (if rcv_msg_size < 0 then False else True, response_of_bytes mem))"


section \<open>Server (\<^verbatim>\<open>UDP_server.c\<close>)\<close>

text \<open>
  Modelled from the spec: the server's own copy of \<^verbatim>\<open>libs/protocol/protocol.h\<close> is not
  among the sources. The wire format has one layout for each record (a type byte followed
  by the length text field of the buffer size; a password text field of the maximum
  password length plus one), so the server's \<^verbatim>\<open>PasswordRequest\<close> and \<^verbatim>\<open>PasswordResponse\<close>
  are taken to be the two records of the client's header.
\<close>

definition receive_request ::
  "char list option \<Rightarrow> PasswordRequest \<Rightarrow> bool \<times> PasswordRequest" where
  "receive_request incoming request_msg =
     (case recvfrom incoming (request_bytes request_msg) of
        (rcv_msg_size, mem) \<Rightarrow>
          (if rcv_msg_size < 0 then False else True, request_of_bytes mem))"

definition send_response :: "bool \<Rightarrow> PasswordResponse \<Rightarrow> bool \<times> char list option" where
  "send_response ok response_msg =
     (case sendto ok (response_bytes response_msg) of
        (sent, datagram) \<Rightarrow>
          (if sent \<noteq> int sizeof_PasswordResponse then False else True, datagram))"

text \<open>
  \<^verbatim>\<open>handle_password_request\<close>: the length is converted first, then the switch on the
  folded type character chooses the password type, then the password is generated into
  \<^verbatim>\<open>response->password\<close>.
\<close>

definition handle_password_request ::
  "PasswordRequest \<Rightarrow> PasswordResponse \<Rightarrow> rand_source
     \<Rightarrow> (PasswordResponse \<times> rand_source) option" where
  "handle_password_request request response s =
     (case atoi (length_field request) of
        None \<Rightarrow> None
      | Some numerical_length \<Rightarrow>
          (let c = tolower (type_field request);
               password_type =
                 (if c = CHR ''n'' then NUMERIC
                  else if c = CHR ''a'' then ALPHA
                  else if c = CHR ''m'' then MIXED
                  else if c = CHR ''s'' then SECURE
                  else if c = CHR ''u'' then UNAMBIGUOUS
                  else NUMERIC)
           in (case generate_password (password_field response) password_type
                      numerical_length s of
                 None \<Rightarrow> None
               | Some (pw, s') \<Rightarrow> Some (response\<lparr>password_field := pw\<rparr>, s'))))"


section \<open>Vocabulary of the properties\<close>

text \<open>The character classes that the password types are described with.\<close>

definition digit_chars :: "char set" where
  "digit_chars = set ''0123456789''"

definition lowercase_chars :: "char set" where
  "lowercase_chars = set ''abcdefghijklmnopqrstuvwxyz''"

definition uppercase_chars :: "char set" where
  "uppercase_chars = set ''ABCDEFGHIJKLMNOPQRSTUVWXYZ''"

definition symbol_chars :: "char set" where
  "symbol_chars = set ''!@#$%^&*()''"

definition excluded_glyphs :: "char set" where
  "excluded_glyphs = set ''0Oo1lIi2Zz5Ss8B''"

definition type_charset :: "PasswordType \<Rightarrow> char set" where
  "type_charset t =
     (if t = NUMERIC then digit_chars
      else if t = ALPHA then lowercase_chars
      else if t = MIXED then digit_chars \<union> lowercase_chars
      else if t = SECURE
        then lowercase_chars \<union> uppercase_chars \<union> digit_chars \<union> symbol_chars
      else if t = UNAMBIGUOUS
        then (lowercase_chars \<union> uppercase_chars \<union> digit_chars \<union> symbol_chars)
               - excluded_glyphs
      else {})"

text \<open>Lowercase folding, by the table of the 26 letters.\<close>

definition lowercase_fold :: "char \<Rightarrow> char" where
  "lowercase_fold c =
     (case map_of (zip ''ABCDEFGHIJKLMNOPQRSTUVWXYZ'' ''abcdefghijklmnopqrstuvwxyz'') c of
        None \<Rightarrow> c
      | Some l \<Rightarrow> l)"

text \<open>The decimal value of a string of digits; the empty string has the value 0.\<close>

definition digit_value :: "char \<Rightarrow> nat" where
  "digit_value c = (case map_of (zip ''0123456789'' [0..<10]) c of None \<Rightarrow> 0 | Some v \<Rightarrow> v)"

definition decimal_value :: "string \<Rightarrow> nat" where
  "decimal_value raw = horner_sum digit_value 10 (rev raw)"

text \<open>
  The two-stage reference for the mixed type: a coin chooses between the digits and the
  lowercase letters, a second draw chooses within the chosen charset. Character \<open>i\<close> of
  the password takes the draws \<open>2 * i\<close> and \<open>2 * i + 1\<close> of the sequence \<open>d\<close>.
\<close>

definition two_stage_draw :: "nat \<Rightarrow> nat \<Rightarrow> char" where
  "two_stage_draw coin r =
     (if coin mod 2 = 1 then ''abcdefghijklmnopqrstuvwxyz'' ! (r mod 26)
      else ''0123456789'' ! (r mod 10))"

definition mixed_reference :: "nat \<Rightarrow> (nat \<Rightarrow> nat) \<Rightarrow> string" where
  "mixed_reference n d = map (\<lambda>i. two_stage_draw (d (2 * i)) (d (2 * i + 1))) [0..<n]"

text \<open>
  The characters that \<open>n\<close> rounds of a generator's loop draw, and the random source after
  them.
\<close>

fun draw_chars ::
  "(rand_source \<Rightarrow> char \<times> rand_source) \<Rightarrow> nat \<Rightarrow> rand_source \<Rightarrow> char list \<times> rand_source" where
  "draw_chars pick 0 s = ([], s)"
| "draw_chars pick (Suc n) s =
     (case pick s of (c, s') \<Rightarrow> (case draw_chars pick n s' of (cs, s'') \<Rightarrow> (c # cs, s'')))"


section \<open>Properties of password generation\<close>

lemma length_draw_chars: "length (fst (draw_chars pick n s)) = n"
proof (induction n arbitrary: s)
  case 0
  show ?case by simp
next
  case (Suc n)
  obtain c s' where p: "pick s = (c, s')" by (cases "pick s")
  from Suc [of s'] p show ?case by (auto split: prod.splits)
qed

lemma set_draw_chars:
  assumes "\<And>s. fst (pick s) \<in> A"
  shows "set (fst (draw_chars pick n s)) \<subseteq> A"
proof (induction n arbitrary: s)
  case 0
  show ?case by simp
next
  case (Suc n)
  obtain c s' where p: "pick s = (c, s')" by (cases "pick s")
  have "c \<in> A" using assms [of s] p by simp
  with Suc [of s'] p show ?case by (auto split: prod.splits)
qed

lemma generate_loop_draw_chars:
  "0 \<le> i \<Longrightarrow> i \<le> len \<Longrightarrow> len \<le> int (length pw) \<Longrightarrow>
   generate_loop pick i len pw s =
     Some (take (nat i) pw @ fst (draw_chars pick (nat (len - i)) s) @ drop (nat len) pw,
           snd (draw_chars pick (nat (len - i)) s))"
proof (induction pick i len pw s rule: generate_loop.induct)
  case (1 pick i len pw s)
  show ?case
  proof (cases "i < len")
    case False
    with "1.prems" have "i = len" by simp
    then show ?thesis by simp
  next
    case True
    obtain c s' where p: "pick s = (c, s')" by (cases "pick s")
    let ?pw' = "pw[nat i := c]"
    have st: "store pw i c = Some ?pw'"
      using True "1.prems" by (simp add: store_def)
    have n: "nat (len - i) = Suc (nat (len - (i + 1)))"
      using True by simp
    have ih: "generate_loop pick (i + 1) len ?pw' s' =
      Some (take (nat (i + 1)) ?pw' @ fst (draw_chars pick (nat (len - (i + 1))) s') @ drop (nat len) ?pw',
           snd (draw_chars pick (nat (len - (i + 1))) s'))"
      using "1.IH" [OF True p [symmetric] st] True "1.prems" by simp
    have t: "take (nat (i + 1)) ?pw' = take (nat i) pw @ [c]"
    proof -
      have "nat (i + 1) = Suc (nat i)" using "1.prems" by simp
      moreover have "nat i < length pw" using True "1.prems" by simp
      ultimately show ?thesis by (simp add: take_Suc_conv_app_nth)
    qed
    have d: "drop (nat len) ?pw' = drop (nat len) pw"
      using True "1.prems" by simp
    show ?thesis
      using True p st ih t d n
      by (subst generate_loop.simps) (simp split: prod.splits)
  qed
qed

lemma digit_table: "map (\<lambda>k. char_of (of_char CHR ''0'' + k :: nat)) [0..<10] = ''0123456789''"
  by code_simp

lemma letter_table:
  "map (\<lambda>k. char_of (of_char CHR ''a'' + k :: nat)) [0..<26] = ''abcdefghijklmnopqrstuvwxyz''"
  by code_simp

lemma digit_arith: "k < 10 \<Longrightarrow> char_of (of_char CHR ''0'' + k :: nat) = ''0123456789'' ! k"
proof -
  assume k: "k < 10"
  have "map (\<lambda>k. char_of (of_char CHR ''0'' + k :: nat)) [0..<10] ! k = char_of (of_char CHR ''0'' + k :: nat)"
    using k by (simp del: upt_Suc of_char_Char)
  then show ?thesis by (simp only: digit_table)
qed

lemma letter_arith:
  "k < 26 \<Longrightarrow> char_of (of_char CHR ''a'' + k :: nat) = ''abcdefghijklmnopqrstuvwxyz'' ! k"
proof -
  assume k: "k < 26"
  have "map (\<lambda>k. char_of (of_char CHR ''a'' + k :: nat)) [0..<26] ! k = char_of (of_char CHR ''a'' + k :: nat)"
    using k by (simp del: upt_Suc of_char_Char)
  then show ?thesis by (simp only: letter_table)
qed

lemma numeric_char_digit: "fst (numeric_char s) \<in> digit_chars"
proof -
  have "''0123456789'' ! (draws s 0 mod 10) \<in> set ''0123456789''"
    by (rule nth_mem) simp
  moreover have "char_of (of_char CHR ''0'' + draws s 0 mod 10) = ''0123456789'' ! (draws s 0 mod 10)"
    by (rule digit_arith) simp
  ultimately show ?thesis
    by (simp only: numeric_char_def rand_def digit_chars_def split_conv fst_conv)
qed

lemma alpha_char_lowercase: "fst (alpha_char s) \<in> lowercase_chars"
proof -
  have "''abcdefghijklmnopqrstuvwxyz'' ! (draws s 0 mod 26) \<in> set ''abcdefghijklmnopqrstuvwxyz''"
    by (rule nth_mem) simp
  moreover have "char_of (of_char CHR ''a'' + draws s 0 mod 26) =
      ''abcdefghijklmnopqrstuvwxyz'' ! (draws s 0 mod 26)"
    by (rule letter_arith) simp
  ultimately show ?thesis
    by (simp only: alpha_char_def rand_def lowercase_chars_def split_conv fst_conv)
qed

lemma mixed_char_cases:
  "fst (mixed_char s) =
     (if draws s 0 mod 2 \<noteq> 0 then fst (alpha_char (snd (rand s))) else fst (numeric_char (snd (rand s))))"
  by (simp add: mixed_char_def alpha_char_def numeric_char_def rand_def del: of_char_Char)

lemma mixed_char_in: "fst (mixed_char s) \<in> digit_chars \<union> lowercase_chars"
  using numeric_char_digit [of "snd (rand s)"] alpha_char_lowercase [of "snd (rand s)"]
  by (simp add: mixed_char_cases)

lemma secure_char_in: "fst (secure_char s) \<in> set secure_charset"
proof -
  have "0 < length secure_charset" by (simp add: secure_charset_def)
  then show ?thesis by (simp add: secure_char_def rand_def)
qed

lemma unambiguous_char_in: "fst (unambiguous_char s) \<in> set unambiguous_charset"
proof -
  have "0 < length unambiguous_charset" by (simp add: unambiguous_charset_def)
  then show ?thesis by (simp add: unambiguous_char_def rand_def)
qed

lemma secure_charset_classes:
  "set secure_charset \<subseteq> lowercase_chars \<union> uppercase_chars \<union> digit_chars \<union> symbol_chars"
  by (simp add: secure_charset_def lowercase_chars_def uppercase_chars_def digit_chars_def
      symbol_chars_def)

lemma unambiguous_charset_classes:
  "set unambiguous_charset \<subseteq> lowercase_chars \<union> uppercase_chars \<union> digit_chars \<union> symbol_chars"
  by (simp add: unambiguous_charset_def lowercase_chars_def uppercase_chars_def digit_chars_def
      symbol_chars_def)

lemma unambiguous_charset_excluded: "set unambiguous_charset \<inter> excluded_glyphs = {}"
  by (simp add: unambiguous_charset_def excluded_glyphs_def)

lemma NUL_not_in_classes:
  "NUL \<notin> lowercase_chars \<union> uppercase_chars \<union> digit_chars \<union> symbol_chars"
  by (simp add: lowercase_chars_def uppercase_chars_def digit_chars_def symbol_chars_def)

lemma c_string_terminated: "NUL \<notin> set cs \<Longrightarrow> c_string (cs @ NUL # rest) = cs"
  by (auto simp add: c_string_def takeWhile_tail)

lemma generate_terminated:
  assumes "0 \<le> len" and "len < int (length pw)"
  shows "terminate_password len (generate_loop pick 0 len pw s) =
     Some (fst (draw_chars pick (nat len) s) @ NUL # drop (Suc (nat len)) pw,
           snd (draw_chars pick (nat len) s))"
proof -
  let ?cs = "fst (draw_chars pick (nat len) s)"
  have n: "nat len < length pw" using assms by simp
  have loop: "generate_loop pick 0 len pw s =
      Some (?cs @ drop (nat len) pw, snd (draw_chars pick (nat len) s))"
    using generate_loop_draw_chars [of 0 len pw pick s] assms by simp
  have d: "drop (nat len) pw = pw ! nat len # drop (Suc (nat len)) pw"
    using n by (simp add: Cons_nth_drop_Suc)
  have upd: "(?cs @ drop (nat len) pw)[nat len := NUL] = ?cs @ NUL # drop (Suc (nat len)) pw"
    unfolding d by (simp add: list_update_append length_draw_chars)
  have "store (?cs @ drop (nat len) pw) len NUL = Some (?cs @ NUL # drop (Suc (nat len)) pw)"
    using assms n upd by (simp add: store_def length_draw_chars)
  with loop show ?thesis by (simp add: terminate_password_def)
qed

lemma generate_string:
  assumes pick: "\<And>s. fst (pick s) \<in> A" and nul: "NUL \<notin> A"
    and len: "0 \<le> len" "len < int (length pw)"
  shows "\<exists>pw' s'. terminate_password len (generate_loop pick 0 len pw s) = Some (pw', s')
     \<and> length pw' = length pw \<and> pw' ! nat len = NUL
     \<and> length (c_string pw') = nat len \<and> set (c_string pw') \<subseteq> A"
proof -
  let ?cs = "fst (draw_chars pick (nat len) s)"
  let ?pw' = "?cs @ NUL # drop (Suc (nat len)) pw"
  have sub: "set ?cs \<subseteq> A" using pick by (rule set_draw_chars)
  with nul have "NUL \<notin> set ?cs" by blast
  then have cs: "c_string ?pw' = ?cs" by (rule c_string_terminated)
  have l: "length ?pw' = length pw" using len by (simp add: length_draw_chars)
  have z: "?pw' ! nat len = NUL"
    by (simp add: nth_append length_draw_chars)
  show ?thesis
    using generate_terminated [OF len, of pick s] cs l z sub
    by (simp add: length_draw_chars)
qed


text \<open>
  C1. For each of the five password types and every length from 6 to 32 that the buffer
  has room for (\<open>length + 1\<close> bytes at least), \<open>generate_password\<close> returns, whatever
  the state of the random source, with a null-terminated string of exactly \<open>length\<close>
  characters in the buffer, all of them in the charset of the type (digits; lowercase
  letters; digits and lowercase letters; letters of both cases, digits and the ten
  symbols; the latter without the excluded glyphs), and for the unambiguous type none of
  them among the excluded glyphs.
\<close>

theorem generate_password_charset:
  assumes t: "t \<in> {NUMERIC, ALPHA, MIXED, SECURE, UNAMBIGUOUS}"
    and len: "6 \<le> len" "len \<le> 32" and cap: "len < int (length pw)"
  shows "\<exists>pw' s'. generate_password pw t len s = Some (pw', s')
     \<and> length pw' = length pw \<and> pw' ! nat len = NUL
     \<and> length (c_string pw') = nat len
     \<and> set (c_string pw') \<subseteq> type_charset t
     \<and> (t = UNAMBIGUOUS \<longrightarrow> set (c_string pw') \<inter> excluded_glyphs = {})"
proof -
  have l0: "0 \<le> len" using len by simp
  note nul = NUL_not_in_classes
  consider "t = NUMERIC" | "t = ALPHA" | "t = MIXED" | "t = SECURE" | "t = UNAMBIGUOUS"
    using t by blast
  then show ?thesis
  proof cases
    case 1
    have "NUL \<notin> digit_chars" using nul by simp
    from generate_string [of numeric_char digit_chars, OF numeric_char_digit this l0 cap, of s]
    show ?thesis using 1
      by (simp add: generate_password_def generate_numeric_def type_charset_def NUMERIC_def
          UNAMBIGUOUS_def)
  next
    case 2
    have "NUL \<notin> lowercase_chars" using nul by simp
    from generate_string [of alpha_char lowercase_chars, OF alpha_char_lowercase this l0 cap, of s]
    show ?thesis using 2
      by (simp add: generate_password_def generate_alpha_def type_charset_def NUMERIC_def
          ALPHA_def UNAMBIGUOUS_def)
  next
    case 3
    have "NUL \<notin> digit_chars \<union> lowercase_chars" using nul by simp
    from generate_string [of mixed_char "digit_chars \<union> lowercase_chars", OF mixed_char_in this l0 cap, of s]
    show ?thesis using 3
      by (simp add: generate_password_def generate_mixed_def type_charset_def NUMERIC_def
          ALPHA_def MIXED_def UNAMBIGUOUS_def)
  next
    case 4
    have "NUL \<notin> set secure_charset" using nul secure_charset_classes by blast
    from generate_string [of secure_char "set secure_charset", OF secure_char_in this l0 cap, of s]
    obtain pw' s' where r: "terminate_password len (generate_loop secure_char 0 len pw s) = Some (pw', s')"
      "length pw' = length pw" "pw' ! nat len = NUL" "length (c_string pw') = nat len"
      "set (c_string pw') \<subseteq> set secure_charset"
      by blast
    have "set (c_string pw') \<subseteq> type_charset t"
      using r(5) secure_charset_classes 4
      by (simp add: type_charset_def NUMERIC_def ALPHA_def MIXED_def SECURE_def)
    with r 4 show ?thesis
      by (simp add: generate_password_def generate_secure_def NUMERIC_def
          ALPHA_def MIXED_def SECURE_def UNAMBIGUOUS_def)
  next
    case 5
    have "NUL \<notin> set unambiguous_charset" using nul unambiguous_charset_classes by blast
    from generate_string [of unambiguous_char "set unambiguous_charset", OF unambiguous_char_in this l0 cap, of s]
    obtain pw' s' where r: "terminate_password len (generate_loop unambiguous_char 0 len pw s) = Some (pw', s')"
      "length pw' = length pw" "pw' ! nat len = NUL" "length (c_string pw') = nat len"
      "set (c_string pw') \<subseteq> set unambiguous_charset"
      by blast
    have ex: "set (c_string pw') \<inter> excluded_glyphs = {}"
      using r(5) unambiguous_charset_excluded by blast
    have "set (c_string pw') \<subseteq> type_charset t"
      using r(5) unambiguous_charset_classes ex 5
      by (auto simp add: type_charset_def NUMERIC_def ALPHA_def MIXED_def SECURE_def UNAMBIGUOUS_def)
    with r ex 5 show ?thesis
      by (simp add: generate_password_def generate_unambiguous_def NUMERIC_def
          ALPHA_def MIXED_def SECURE_def UNAMBIGUOUS_def)
  qed
qed

theorem generate_password_charset_witness:
  "UNAMBIGUOUS \<in> {NUMERIC, ALPHA, MIXED, SECURE, UNAMBIGUOUS} \<and> (6::int) \<le> 6 \<and> (6::int) \<le> 32
   \<and> 6 < int (length (replicate 33 NUL))
   \<and> (\<exists>pw' s'. generate_password (replicate 33 NUL) UNAMBIGUOUS 6
            \<lparr>draws = (\<lambda>k. 7 * k), srand_calls = 0\<rparr> = Some (pw', s')
        \<and> length pw' = 33 \<and> pw' ! 6 = NUL \<and> length (c_string pw') = 6
        \<and> set (c_string pw') \<subseteq> type_charset UNAMBIGUOUS
        \<and> set (c_string pw') \<inter> excluded_glyphs = {})"
  using generate_password_charset [of UNAMBIGUOUS 6 "replicate 33 NUL"
      "\<lparr>draws = (\<lambda>k. 7 * k), srand_calls = 0\<rparr>"]
  by simp


lemma draws_rand: "draws (snd (rand s)) = (\<lambda>k. draws s (Suc k))"
  by (simp add: rand_def)

lemma two_stage_mixed_char:
  "fst (mixed_char s) = two_stage_draw (draws s 0) (draws s 1)"
proof -
  have a: "char_of (of_char CHR ''a'' + draws s 1 mod 26) =
      ''abcdefghijklmnopqrstuvwxyz'' ! (draws s 1 mod 26)"
    by (rule letter_arith) simp
  have d: "char_of (of_char CHR ''0'' + draws s 1 mod 10) = ''0123456789'' ! (draws s 1 mod 10)"
    by (rule digit_arith) simp
  show ?thesis
  proof (cases "draws s 0 mod 2 = 1")
    case True
    then show ?thesis
      using a by (simp add: mixed_char_def rand_def two_stage_draw_def del: of_char_Char)
  next
    case False
    then have "draws s 0 mod 2 = 0" by presburger
    then show ?thesis
      using d by (simp add: mixed_char_def rand_def two_stage_draw_def del: of_char_Char)
  qed
qed

lemma mixed_char_source:
  "snd (mixed_char s) = s\<lparr>draws := (\<lambda>k. draws s (k + 2))\<rparr>"
  by (simp add: mixed_char_def rand_def)

lemma draw_chars_mixed:
  "draw_chars mixed_char n s =
     (mixed_reference n (draws s), s\<lparr>draws := (\<lambda>k. draws s (k + 2 * n))\<rparr>)"
proof (induction n arbitrary: s)
  case 0
  show ?case by (simp add: mixed_reference_def)
next
  case (Suc n)
  let ?s' = "s\<lparr>draws := (\<lambda>k. draws s (k + 2))\<rparr>"
  have p: "mixed_char s = (two_stage_draw (draws s 0) (draws s 1), ?s')"
    using two_stage_mixed_char [of s] mixed_char_source [of s] by (cases "mixed_char s") simp
  have m: "mixed_reference (Suc n) (draws s) =
      two_stage_draw (draws s 0) (draws s 1) # mixed_reference n (\<lambda>k. draws s (k + 2))"
    by (simp add: mixed_reference_def upt_conv_Cons map_Suc_upt [symmetric] del: upt_Suc)
  show ?case
    by (simp add: p Suc m add.commute add.left_commute)
qed


text \<open>
  C7. For every length from 6 to 32 that the buffer has room for and every state of the
  random source, the password of \<open>generate_mixed\<close> is the two-stage reference: its
  \<open>i\<close>-th character is chosen by draw \<open>2 * i\<close> as a coin between the digits and the
  lowercase letters and by draw \<open>2 * i + 1\<close> within the chosen charset, so that the
  generator consumes two draws for each character, not one draw over the 36 characters.
\<close>

theorem generate_mixed_two_stage:
  assumes len: "6 \<le> len" "len \<le> 32" and cap: "len < int (length pw)"
  shows "\<exists>pw' s'. generate_mixed pw len s = Some (pw', s')
     \<and> c_string pw' = mixed_reference (nat len) (draws s)
     \<and> (\<forall>i < nat len. pw' ! i = two_stage_draw (draws s (2 * i)) (draws s (2 * i + 1)))
     \<and> draws s' = (\<lambda>k. draws s (k + 2 * nat len))"
proof -
  let ?ref = "mixed_reference (nat len) (draws s)"
  let ?pw' = "?ref @ NUL # drop (Suc (nat len)) pw"
  have l0: "0 \<le> len" using len by simp
  have gen: "generate_mixed pw len s =
      Some (?pw', s\<lparr>draws := (\<lambda>k. draws s (k + 2 * nat len))\<rparr>)"
    using generate_terminated [OF l0 cap, of mixed_char s]
    by (simp add: generate_mixed_def draw_chars_mixed)
  have "set (fst (draw_chars mixed_char (nat len) s)) \<subseteq> digit_chars \<union> lowercase_chars"
    using mixed_char_in by (rule set_draw_chars)
  then have "NUL \<notin> set ?ref"
    using NUL_not_in_classes by (auto simp add: draw_chars_mixed)
  then have str: "c_string ?pw' = ?ref" by (rule c_string_terminated)
  have nth: "\<forall>i < nat len. ?pw' ! i = two_stage_draw (draws s (2 * i)) (draws s (2 * i + 1))"
    by (simp add: nth_append mixed_reference_def)
  show ?thesis using gen str nth by simp
qed

theorem generate_mixed_two_stage_witness:
  "(6::int) \<le> 6 \<and> (6::int) \<le> 32 \<and> 6 < int (length (replicate 33 NUL))
   \<and> (\<exists>pw' s'. generate_mixed (replicate 33 NUL) 6
            \<lparr>draws = (\<lambda>k. k div 2 + k), srand_calls = 0\<rparr> = Some (pw', s')
        \<and> c_string pw' = ''1e7k3q''
        \<and> draws s' = (\<lambda>k. (k + 12) div 2 + (k + 12)))"
  using generate_mixed_two_stage [of 6 "replicate 33 NUL"
      "\<lparr>draws = (\<lambda>k. k div 2 + k), srand_calls = 0\<rparr>"]
  by (simp add: mixed_reference_def two_stage_draw_def upt_rec) blast


text \<open>
  C10. For every value of the type outside the five enumerators and every length,
  \<open>generate_password\<close> writes nothing: the buffer, terminated or not, and the random
  source are returned as they were.
\<close>

theorem generate_password_unknown_type:
  assumes "t \<notin> {NUMERIC, ALPHA, MIXED, SECURE, UNAMBIGUOUS}"
  shows "generate_password pw t len s = Some (pw, s)"
  using assms by (simp add: generate_password_def)

theorem generate_password_unknown_type_witness:
  "5 \<notin> {NUMERIC, ALPHA, MIXED, SECURE, UNAMBIGUOUS}
   \<and> generate_password ''abc'' 5 8 \<lparr>draws = (\<lambda>k. k), srand_calls = 0\<rparr>
       = Some (''abc'', \<lparr>draws = (\<lambda>k. k), srand_calls = 0\<rparr>)"
  using generate_password_unknown_type [of 5 "''abc''" 8 "\<lparr>draws = (\<lambda>k. k), srand_calls = 0\<rparr>"]
  by (simp add: NUMERIC_def ALPHA_def MIXED_def SECURE_def UNAMBIGUOUS_def)


section \<open>Properties of the input checks and of the request handler\<close>

lemma char_between:
  "a \<le> c \<and> c \<le> b \<longleftrightarrow> c \<in> set (map char_of [of_char a ..< Suc (of_char b) :: nat])"
proof
  assume "a \<le> c \<and> c \<le> b"
  then have "(of_char c :: nat) \<in> set [of_char a ..< Suc (of_char b)]"
    by (auto simp add: less_eq_char_def)
  then have "char_of (of_char c :: nat) \<in> char_of ` set [of_char a ..< Suc (of_char b) :: nat]"
    by (rule imageI)
  then show "c \<in> set (map char_of [of_char a ..< Suc (of_char b) :: nat])"
    by simp
next
  assume "c \<in> set (map char_of [of_char a ..< Suc (of_char b) :: nat])"
  then obtain k :: nat where k: "of_char a \<le> k" "k \<le> of_char b" and c: "c = char_of k"
    by auto
  have "k < 256" using k(2) by (rule le_less_trans) (rule nat_of_char_less_256)
  then have "of_char c = k" using c by simp
  with k show "a \<le> c \<and> c \<le> b" by (simp add: less_eq_char_def)
qed

lemma uppercase_range: "CHR ''A'' \<le> c \<and> c \<le> CHR ''Z'' \<longleftrightarrow> c \<in> uppercase_chars"
proof -
  have "map char_of [of_char CHR ''A'' ..< Suc (of_char CHR ''Z'') :: nat] =
      ''ABCDEFGHIJKLMNOPQRSTUVWXYZ''"
    by code_simp
  then show ?thesis
    by (simp only: char_between uppercase_chars_def)
qed

lemma isdigit_digit_chars: "isdigit c \<longleftrightarrow> c \<in> digit_chars"
proof -
  have "map char_of [of_char CHR ''0'' ..< Suc (of_char CHR ''9'') :: nat] = ''0123456789''"
    by code_simp
  then show ?thesis
    by (simp only: isdigit_def char_between digit_chars_def)
qed

lemma tolower_table:
  "map (\<lambda>c. char_of (of_char c + (32::nat))) ''ABCDEFGHIJKLMNOPQRSTUVWXYZ'' =
     ''abcdefghijklmnopqrstuvwxyz''"
  by code_simp

lemma tolower_fold: "tolower c = lowercase_fold c"
proof (cases "c \<in> uppercase_chars")
  case True
  then have "c \<in> set ''ABCDEFGHIJKLMNOPQRSTUVWXYZ''"
    by (simp only: uppercase_chars_def)
  then obtain i where "i < length ''ABCDEFGHIJKLMNOPQRSTUVWXYZ''"
    and c: "c = ''ABCDEFGHIJKLMNOPQRSTUVWXYZ'' ! i"
    unfolding in_set_conv_nth by blast
  then have i: "i < 26" by simp
  have "map (\<lambda>c. char_of (of_char c + (32::nat))) ''ABCDEFGHIJKLMNOPQRSTUVWXYZ'' ! i =
      char_of (of_char c + (32::nat))"
    unfolding c using i by (intro nth_map) simp
  then have t: "tolower c = ''abcdefghijklmnopqrstuvwxyz'' ! i"
    using True by (simp only: tolower_def uppercase_range tolower_table if_True)
  have "map_of (zip ''ABCDEFGHIJKLMNOPQRSTUVWXYZ'' ''abcdefghijklmnopqrstuvwxyz'') c =
      Some (''abcdefghijklmnopqrstuvwxyz'' ! i)"
    unfolding c using i by (intro map_of_zip_nth) simp_all
  then have "lowercase_fold c = ''abcdefghijklmnopqrstuvwxyz'' ! i"
    by (simp only: lowercase_fold_def option.case)
  with t show ?thesis by simp
next
  case False
  then have t: "tolower c = c" by (simp only: tolower_def uppercase_range if_False)
  have "map_of (zip ''ABCDEFGHIJKLMNOPQRSTUVWXYZ'' ''abcdefghijklmnopqrstuvwxyz'') c = None"
    using False by (subst map_of_zip_is_None) (simp_all add: uppercase_chars_def)
  then have "lowercase_fold c = c" by (simp only: lowercase_fold_def option.case)
  with t show ?thesis by simp
qed

text \<open>
  C9. \<open>keep_generating\<close> is true exactly when its two characters differ after lowercase
  folding; it is false on \<open>q\<close>, \<open>q\<close> and on \<open>Q\<close>, \<open>q\<close>, and true on \<open>n\<close>, \<open>q\<close>.
\<close>

theorem keep_generating_fold:
  "keep_generating a b = (lowercase_fold a \<noteq> lowercase_fold b)
   \<and> \<not> keep_generating CHR ''q'' CHR ''q''
   \<and> \<not> keep_generating CHR ''Q'' CHR ''q''
   \<and> keep_generating CHR ''n'' CHR ''q''"
proof (intro conjI)
  show "keep_generating a b = (lowercase_fold a \<noteq> lowercase_fold b)"
    by (simp only: keep_generating_def tolower_fold)
  have q: "lowercase_fold CHR ''q'' = CHR ''q''" and Q: "lowercase_fold CHR ''Q'' = CHR ''q''"
    and n: "lowercase_fold CHR ''n'' = CHR ''n''"
    by (simp_all add: lowercase_fold_def)
  show "\<not> keep_generating CHR ''q'' CHR ''q''"
    by (simp only: keep_generating_def tolower_fold)
  show "\<not> keep_generating CHR ''Q'' CHR ''q''"
    by (simp only: keep_generating_def tolower_fold q Q)
  show "keep_generating CHR ''n'' CHR ''q''"
    by (simp add: keep_generating_def tolower_fold q n)
qed

subsection \<open>The type check\<close>

lemma lowercase_fold_letter:
  "lowercase_fold c = CHR ''n'' \<longleftrightarrow> c \<in> {CHR ''n'', CHR ''N''}"
  "lowercase_fold c = CHR ''a'' \<longleftrightarrow> c \<in> {CHR ''a'', CHR ''A''}"
  "lowercase_fold c = CHR ''m'' \<longleftrightarrow> c \<in> {CHR ''m'', CHR ''M''}"
  "lowercase_fold c = CHR ''s'' \<longleftrightarrow> c \<in> {CHR ''s'', CHR ''S''}"
  "lowercase_fold c = CHR ''u'' \<longleftrightarrow> c \<in> {CHR ''u'', CHR ''U''}"
  by (auto simp add: lowercase_fold_def split: if_splits)

lemma strchr_found_terminated:
  "NUL \<notin> set allowed \<Longrightarrow>
   strchr_found (allowed @ NUL # rest) c = Some (c \<in> set allowed \<or> c = NUL)"
  by (induction allowed) auto

text \<open>
  C2, as the code has it. For a null-terminated candidate string, \<open>control_type\<close> is
  true exactly when the character itself, compared byte for byte and not folded, is one
  of the candidates or is the terminating NUL (which \<^verbatim>\<open>strchr\<close> counts as part of the string).
\<close>

theorem control_type_case_sensitive:
  assumes "NUL \<notin> set allowed"
  shows "control_type (allowed @ NUL # rest) c = Some (c \<in> set allowed \<or> c = NUL)"
  using assms by (simp add: control_type_def strchr_found_terminated)

theorem control_type_case_sensitive_witness:
  "NUL \<notin> set ''namsuq''
   \<and> control_type (''namsuq'' @ NUL # []) CHR ''n'' = Some True
   \<and> control_type (''namsuq'' @ NUL # []) CHR ''N'' = Some False"
  using control_type_case_sensitive [of "''namsuq''" "[]" "CHR ''n''"]
    control_type_case_sensitive [of "''namsuq''" "[]" "CHR ''N''"]
  by simp

text \<open>
  C2 as stated fails: the fold of \<open>N\<close> is among the candidates \<open>namsu\<close>, and \<open>N\<close> is
  rejected.
\<close>

theorem control_type_fold_counterexample:
  "lowercase_fold CHR ''N'' \<in> set ''namsu''
   \<and> control_type (''namsu'' @ [NUL]) CHR ''N'' = Some False"
  by (simp add: lowercase_fold_def control_type_def)

subsection \<open>The length check\<close>

lemma digit_value_table: "map digit_value ''0123456789'' = [0..<10]"
  by (simp add: digit_value_def upt_rec)

lemma digit_code_table:
  "map (\<lambda>c. of_char c - of_char CHR ''0'' :: nat) ''0123456789'' = [0..<10]"
  by (simp add: upt_rec)

lemma digit_value_code:
  assumes "isdigit c"
  shows "of_char c - of_char CHR ''0'' = digit_value c"
proof -
  from assms have "c \<in> set ''0123456789''"
    by (simp only: isdigit_digit_chars digit_chars_def)
  then obtain i where "i < length ''0123456789''" and c: "c = ''0123456789'' ! i"
    unfolding in_set_conv_nth by blast
  then have i: "i < length ''0123456789''" by simp
  have "map digit_value ''0123456789'' ! i = digit_value c"
    unfolding c using i by (intro nth_map)
  moreover have "map (\<lambda>c. of_char c - of_char CHR ''0'' :: nat) ''0123456789'' ! i =
      of_char c - of_char CHR ''0''"
    unfolding c using i by (intro nth_map)
  ultimately show ?thesis
    by (simp only: digit_value_table digit_code_table)
qed

lemma decimal_value_Cons:
  "decimal_value (c # cs) = digit_value c * 10 ^ length cs + decimal_value cs"
  by (simp add: decimal_value_def horner_sum_append)

lemma atoi_digits_value:
  assumes "\<forall>c \<in> set raw. isdigit c" and "\<not> isdigit e"
  shows "atoi_digits (raw @ e # rest) acc = Some (acc * 10 ^ length raw + decimal_value raw)"
  using assms(1)
proof (induction raw arbitrary: acc)
  case Nil
  show ?case using assms(2) by (simp add: decimal_value_def)
next
  case (Cons c cs)
  then have c: "isdigit c" and cs: "\<forall>c \<in> set cs. isdigit c" by simp_all
  have "atoi_digits ((c # cs) @ e # rest) acc =
      atoi_digits (cs @ e # rest) (10 * acc + digit_value c)"
    using c by (simp add: digit_value_code del: of_char_Char)
  also have "\<dots> = Some ((10 * acc + digit_value c) * 10 ^ length cs + decimal_value cs)"
    using cs by (rule Cons.IH)
  finally show ?case
    by (simp add: decimal_value_Cons algebra_simps)
qed

lemma isdigit_no_prefix: "isdigit c \<Longrightarrow> \<not> isspace c \<and> c \<noteq> CHR ''-'' \<and> c \<noteq> CHR ''+''"
  by (auto simp add: isdigit_digit_chars digit_chars_def isspace_def)

lemma NUL_no_prefix: "\<not> isspace NUL \<and> \<not> isdigit NUL"
  by (simp add: isspace_def isdigit_def)

lemma int_of_long_small: "0 \<le> v \<Longrightarrow> v \<le> INT_MAX \<Longrightarrow> int_of_long (strtol_saturate v) = v"
  by (simp add: int_of_long_def strtol_saturate_def INT_MAX_def INT_MIN_def LONG_MAX_def
      LONG_MIN_def)

lemma atoi_digit_string:
  assumes "\<forall>c \<in> set raw. isdigit c"
  shows "atoi (raw @ NUL # rest) = Some (int_of_long (strtol_saturate (int (decimal_value raw))))"
proof -
  have d: "atoi_digits (raw @ NUL # rest) 0 = Some (decimal_value raw)"
    using atoi_digits_value [OF assms, of NUL rest 0] NUL_no_prefix by simp
  have "atoi_space (raw @ NUL # rest) = Some (int (decimal_value raw))"
  proof (cases raw)
    case Nil
    then show ?thesis using d NUL_no_prefix by simp
  next
    case (Cons c cs)
    then have "isdigit c" using assms by simp
    then show ?thesis using d Cons isdigit_no_prefix [of c] by simp
  qed
  then show ?thesis by (simp add: atoi_def)
qed

lemma atoi_digit_string_small:
  assumes "\<forall>c \<in> set raw. isdigit c" and "int (decimal_value raw) \<le> INT_MAX"
  shows "atoi (raw @ NUL # rest) = Some (int (decimal_value raw))"
  using atoi_digit_string [OF assms(1), of rest] int_of_long_small [OF _ assms(2)] by simp

lemma control_length_loop_terminated:
  "NUL \<notin> set raw \<Longrightarrow> control_length_loop (raw @ NUL # rest) = Some (\<forall>c \<in> set raw. isdigit c)"
  by (induction raw) auto

text \<open>
  What \<open>control_length\<close> returns on every null-terminated string. It is false when the
  string has a character that is not a digit, and, for a positive lower bound, when the
  string is empty. Otherwise it is true exactly when the \<^verbatim>\<open>int\<close> that \<^verbatim>\<open>atoi\<close> makes of the
  string lies between the bounds: up to \<open>INT_MAX\<close> that is the decimal value of the string,
  so far the check is the one its comment promises; beyond \<open>INT_MAX\<close> it is the value
  saturated at \<open>LONG_MAX\<close> and cut to 32 bits.
\<close>

lemma control_length_value:
  assumes "NUL \<notin> set raw"
  shows "control_length (raw @ NUL # rest) mn mx =
     (if \<exists>c \<in> set raw. c \<notin> digit_chars then Some False
      else if int (decimal_value raw) \<le> INT_MAX
        then Some (mn \<le> int (decimal_value raw) \<and> int (decimal_value raw) \<le> mx)
      else Some (mn \<le> int_of_long (strtol_saturate (int (decimal_value raw)))
                 \<and> int_of_long (strtol_saturate (int (decimal_value raw))) \<le> mx))
   \<and> (0 < mn \<longrightarrow> control_length ([] @ NUL # rest) mn mx = Some False)"
proof (intro conjI impI)
  show "control_length (raw @ NUL # rest) mn mx =
     (if \<exists>c \<in> set raw. c \<notin> digit_chars then Some False
      else if int (decimal_value raw) \<le> INT_MAX
        then Some (mn \<le> int (decimal_value raw) \<and> int (decimal_value raw) \<le> mx)
      else Some (mn \<le> int_of_long (strtol_saturate (int (decimal_value raw)))
                 \<and> int_of_long (strtol_saturate (int (decimal_value raw))) \<le> mx))"
  proof (cases "\<forall>c \<in> set raw. isdigit c")
    case True
    then have loop: "control_length_loop (raw @ NUL # rest) = Some True"
      using assms by (simp add: control_length_loop_terminated)
    have digits: "\<not> (\<exists>c \<in> set raw. c \<notin> digit_chars)"
      using True by (simp add: isdigit_digit_chars)
    show ?thesis
    proof (cases "int (decimal_value raw) \<le> INT_MAX")
      case True
      with digits loop atoi_digit_string_small [OF \<open>\<forall>c \<in> set raw. isdigit c\<close> True, of rest]
      show ?thesis by (simp add: control_length_def)
    next
      case False
      with digits loop atoi_digit_string [OF \<open>\<forall>c \<in> set raw. isdigit c\<close>, of rest]
      show ?thesis by (simp add: control_length_def)
    qed
  next
    case False
    then have loop: "control_length_loop (raw @ NUL # rest) = Some False"
      using assms by (simp add: control_length_loop_terminated)
    have "\<exists>c \<in> set raw. c \<notin> digit_chars"
      using False by (simp add: isdigit_digit_chars)
    then show ?thesis
      using loop by (simp add: control_length_def)
  qed
next
  assume "0 < mn"
  moreover have "atoi ([] @ NUL # rest) = Some 0"
    using atoi_digit_string_small [of "[]" rest]
    by (simp add: decimal_value_def INT_MAX_def)
  ultimately show "control_length ([] @ NUL # rest) mn mx = Some False"
    by (simp add: control_length_def)
qed

lemma control_length_examples:
  "NUL \<notin> set ''32'' \<and> (0::int) < 6
   \<and> control_length (''32'' @ NUL # []) 6 32 = Some True
   \<and> control_length (''6'' @ NUL # []) 6 32 = Some True
   \<and> control_length (''5'' @ NUL # []) 6 32 = Some False
   \<and> control_length (''33'' @ NUL # []) 6 32 = Some False
   \<and> control_length ([] @ NUL # []) 6 32 = Some False
   \<and> control_length (''1x'' @ NUL # []) 6 32 = Some False
   \<and> control_length (''+8'' @ NUL # []) 6 32 = Some False
   \<and> control_length ('' 8'' @ NUL # []) 6 32 = Some False
   \<and> control_length (''2147483647'' @ NUL # []) 6 32 = Some False
   \<and> control_length (''4294967302'' @ NUL # []) 6 32 = Some True"
  using control_length_value [of "''32''" "[]" 6 32]
    control_length_value [of "''6''" "[]" 6 32]
    control_length_value [of "''5''" "[]" 6 32]
    control_length_value [of "''33''" "[]" 6 32]
    control_length_value [of "[]" "[]" 6 32]
    control_length_value [of "''1x''" "[]" 6 32]
    control_length_value [of "''+8''" "[]" 6 32]
    control_length_value [of "'' 8''" "[]" 6 32]
    control_length_value [of "''2147483647''" "[]" 6 32]
    control_length_value [of "''4294967302''" "[]" 6 32]
  by (simp add: decimal_value_def digit_value_def digit_chars_def INT_MAX_def INT_MIN_def
      LONG_MAX_def LONG_MIN_def int_of_long_def strtol_saturate_def upt_rec)

text \<open>
  C3. With the bounds the client passes, 6 and 32, the length check accepts the string
  \<open>4294967302\<close>: it has digits only, its decimal value is far above 32, and \<^verbatim>\<open>atoi\<close> makes
  the \<^verbatim>\<open>int\<close> 6 of it. The check's own comment promises false for a value outside the
  range.
\<close>

theorem control_length_overflow_accepted:
  "(6::int) \<le> 32 \<and> set ''4294967302'' \<subseteq> digit_chars
   \<and> \<not> (6 \<le> int (decimal_value ''4294967302'') \<and> int (decimal_value ''4294967302'') \<le> 32)
   \<and> atoi (''4294967302'' @ [NUL]) = Some 6
   \<and> control_length (''4294967302'' @ [NUL]) 6 32 = Some True"
  by (simp add: control_length_def atoi_def isspace_def isdigit_def digit_chars_def
      decimal_value_def digit_value_def int_of_long_def strtol_saturate_def INT_MIN_def
      LONG_MAX_def LONG_MIN_def upt_rec)

subsection \<open>The request handler\<close>

lemma atoi_eight: "atoi (CHR ''8'' # NUL # rest) = Some 8"
proof -
  have v: "decimal_value ''8'' = 8"
    by (simp add: decimal_value_def digit_value_def upt_rec)
  have "\<forall>c \<in> set ''8''. isdigit c" by (simp add: isdigit_def)
  from atoi_digit_string_small [OF this, of rest] show ?thesis
    by (simp add: v INT_MAX_def)
qed

text \<open>
  C4. \<open>handle_password_request\<close> generates with the type that the type character names
  in either case (\<open>n\<close>/\<open>N\<close> numeric, \<open>a\<close>/\<open>A\<close> alphabetic, \<open>m\<close>/\<open>M\<close> mixed, \<open>s\<close>/\<open>S\<close>
  secure, \<open>u\<close>/\<open>U\<close> unambiguous) and with the numeric type for every other character;
  it has no error result of its own. A request of type \<open>x\<close> and length \<open>8\<close> gives a
  password of eight digits.
\<close>

theorem handle_password_request_type:
  "handle_password_request request response s =
     (case atoi (length_field request) of
        None \<Rightarrow> None
      | Some n \<Rightarrow>
          (case generate_password (password_field response)
                  (if type_field request \<in> {CHR ''n'', CHR ''N''} then NUMERIC
                   else if type_field request \<in> {CHR ''a'', CHR ''A''} then ALPHA
                   else if type_field request \<in> {CHR ''m'', CHR ''M''} then MIXED
                   else if type_field request \<in> {CHR ''s'', CHR ''S''} then SECURE
                   else if type_field request \<in> {CHR ''u'', CHR ''U''} then UNAMBIGUOUS
                   else NUMERIC) n s of
             None \<Rightarrow> None
           | Some (pw, s') \<Rightarrow> Some (response\<lparr>password_field := pw\<rparr>, s')))
   \<and> (type_field request = CHR ''x'' \<longrightarrow> length_field request = ''8'' @ NUL # rest \<longrightarrow>
        response_ok response \<longrightarrow>
        (\<exists>response' s'. handle_password_request request response s = Some (response', s')
           \<and> length (c_string (password_field response')) = 8
           \<and> set (c_string (password_field response')) \<subseteq> digit_chars))"
proof (intro conjI impI)
  show "handle_password_request request response s =
     (case atoi (length_field request) of
        None \<Rightarrow> None
      | Some n \<Rightarrow>
          (case generate_password (password_field response)
                  (if type_field request \<in> {CHR ''n'', CHR ''N''} then NUMERIC
                   else if type_field request \<in> {CHR ''a'', CHR ''A''} then ALPHA
                   else if type_field request \<in> {CHR ''m'', CHR ''M''} then MIXED
                   else if type_field request \<in> {CHR ''s'', CHR ''S''} then SECURE
                   else if type_field request \<in> {CHR ''u'', CHR ''U''} then UNAMBIGUOUS
                   else NUMERIC) n s of
             None \<Rightarrow> None
           | Some (pw, s') \<Rightarrow> Some (response\<lparr>password_field := pw\<rparr>, s')))"
    by (simp only: handle_password_request_def Let_def tolower_fold lowercase_fold_letter)
next
  assume t: "type_field request = CHR ''x''"
    and l: "length_field request = ''8'' @ NUL # rest"
    and r: "response_ok response"
  have cap: "(8::int) < int (length (password_field response))"
    using r by (simp add: response_ok_def MAX_PASSWORD_LENGTH_def)
  have "NUL \<notin> digit_chars" using NUL_not_in_classes by simp
  from generate_string [of numeric_char digit_chars, OF numeric_char_digit this _ cap, of s]
  obtain pw' s' where g: "generate_numeric (password_field response) 8 s = Some (pw', s')"
    and p: "length (c_string pw') = 8" "set (c_string pw') \<subseteq> digit_chars"
    by (auto simp add: generate_numeric_def)
  have "tolower (type_field request) = CHR ''x''"
    by (simp add: t tolower_fold lowercase_fold_def)
  then have "handle_password_request request response s =
      Some (response\<lparr>password_field := pw'\<rparr>, s')"
    using g
    by (simp add: handle_password_request_def l atoi_eight generate_password_def)
  with p show "\<exists>response' s'. handle_password_request request response s = Some (response', s')
           \<and> length (c_string (password_field response')) = 8
           \<and> set (c_string (password_field response')) \<subseteq> digit_chars"
    by simp
qed

theorem handle_password_request_type_witness:
  "CHR ''x'' = CHR ''x'' \<and> ''8'' @ NUL # replicate 1022 NUL = ''8'' @ NUL # replicate 1022 NUL
   \<and> response_ok \<lparr>password_field = replicate 33 CHR ''?''\<rparr>
   \<and> (\<exists>response' s'.
         handle_password_request
           \<lparr>type_field = CHR ''x'', length_field = ''8'' @ NUL # replicate 1022 NUL\<rparr>
           \<lparr>password_field = replicate 33 CHR ''?''\<rparr>
           \<lparr>draws = (\<lambda>k. k), srand_calls = 0\<rparr> = Some (response', s')
         \<and> length (c_string (password_field response')) = 8
         \<and> set (c_string (password_field response')) \<subseteq> digit_chars)"
proof -
  let ?request = "\<lparr>type_field = CHR ''x'', length_field = ''8'' @ NUL # replicate 1022 NUL\<rparr>"
  let ?response = "\<lparr>password_field = replicate 33 CHR ''?''\<rparr>"
  let ?s = "\<lparr>draws = (\<lambda>k. k), srand_calls = 0\<rparr>"
  have ok: "response_ok ?response"
    by (simp add: response_ok_def MAX_PASSWORD_LENGTH_def)
  have t: "type_field ?request = CHR ''x''" by simp
  have l: "length_field ?request = ''8'' @ NUL # replicate 1022 NUL" by simp
  from handle_password_request_type [of ?request ?response ?s "replicate 1022 NUL"]
  have "type_field ?request = CHR ''x'' \<longrightarrow>
      length_field ?request = ''8'' @ NUL # replicate 1022 NUL \<longrightarrow>
      response_ok ?response \<longrightarrow>
      (\<exists>response' s'. handle_password_request ?request ?response ?s = Some (response', s')
         \<and> length (c_string (password_field response')) = 8
         \<and> set (c_string (password_field response')) \<subseteq> digit_chars)"
    by (rule conjunct2)
  from this [rule_format, OF t l ok] ok show ?thesis by simp
qed


section \<open>The random source is never seeded\<close>

lemma srand_calls_rand: "srand_calls (snd (rand s)) = srand_calls s"
  by (simp add: rand_def)

lemma srand_calls_pick:
  "srand_calls (snd (numeric_char s)) = srand_calls s"
  "srand_calls (snd (alpha_char s)) = srand_calls s"
  "srand_calls (snd (mixed_char s)) = srand_calls s"
  "srand_calls (snd (secure_char s)) = srand_calls s"
  "srand_calls (snd (unambiguous_char s)) = srand_calls s"
  by (simp_all add: numeric_char_def alpha_char_def mixed_char_def secure_char_def
      unambiguous_char_def rand_def)

lemma srand_calls_generate_loop:
  "(\<And>s. srand_calls (snd (pick s)) = srand_calls s) \<Longrightarrow>
   generate_loop pick i len pw s = Some (pw', s') \<Longrightarrow> srand_calls s' = srand_calls s"
proof (induction pick i len pw s rule: generate_loop.induct)
  case (1 pick i len pw s)
  show ?case
  proof (cases "i < len")
    case False
    with "1.prems"(2) show ?thesis by simp
  next
    case True
    obtain c s1 where p: "pick s = (c, s1)" by (cases "pick s")
    have s1: "srand_calls s1 = srand_calls s" using "1.prems"(1) [of s] p by simp
    from "1.prems"(2) True p obtain pw1 where st: "store pw i c = Some pw1"
      and rec: "generate_loop pick (i + 1) len pw1 s1 = Some (pw', s')"
      by (subst (asm) generate_loop.simps) (auto split: option.splits)
    from "1.IH" [OF True p [symmetric] st "1.prems"(1) rec] s1 show ?thesis by simp
  qed
qed

lemma srand_calls_terminate:
  "terminate_password len r = Some (pw', s') \<Longrightarrow> \<exists>pw. r = Some (pw, s')"
  by (auto simp add: terminate_password_def split: option.splits)

lemma srand_calls_generate_password:
  assumes "generate_password pw t len s = Some (pw', s')"
  shows "srand_calls s' = srand_calls s"
proof -
  have loop: "\<And>pick. (\<And>s. srand_calls (snd (pick s)) = srand_calls s) \<Longrightarrow>
      terminate_password len (generate_loop pick 0 len pw s) = Some (pw', s') \<Longrightarrow>
      srand_calls s' = srand_calls s"
    using srand_calls_generate_loop srand_calls_terminate by blast
  from assms show ?thesis
    by (auto simp add: generate_password_def generate_numeric_def generate_alpha_def
        generate_mixed_def generate_secure_def generate_unambiguous_def
        split: if_splits intro: loop srand_calls_pick)
qed

lemma srand_calls_handle_password_request:
  assumes "handle_password_request request response s = Some (response', s')"
  shows "srand_calls s' = srand_calls s"
  using assms
  by (auto simp add: handle_password_request_def Let_def
      split: option.splits dest: srand_calls_generate_password)

lemma atoi_six: "atoi (CHR ''6'' # NUL # rest) = Some 6"
proof -
  have v: "decimal_value ''6'' = 6"
    by (simp add: decimal_value_def digit_value_def upt_rec)
  have "\<forall>c \<in> set ''6''. isdigit c" by (simp add: isdigit_def)
  from atoi_digit_string_small [OF this, of rest] show ?thesis
    by (simp add: v INT_MAX_def)
qed

text \<open>
  C5. The program seeds nothing. A server process that takes the request for a numeric
  password of length 6 as its first datagram serves it from the random source of process
  start: after the request \<open>srand_calls\<close> is still 0, and the six draws consumed are the
  first six of the sequence that \<^verbatim>\<open>rand\<close> yields when \<^verbatim>\<open>srand\<close> was never called.
\<close>

theorem first_request_without_srand:
  "\<exists>response' s'.
     handle_password_request
       \<lparr>type_field = CHR ''n'', length_field = ''6'' @ NUL # replicate 1022 NUL\<rparr>
       \<lparr>password_field = replicate 33 NUL\<rparr> (process_start prng) = Some (response', s')
     \<and> srand_calls s' = 0 \<and> draws s' = (\<lambda>k. prng 1 (k + 6))"
proof -
  let ?request = "\<lparr>type_field = CHR ''n'', length_field = ''6'' @ NUL # replicate 1022 NUL\<rparr>"
  let ?response = "\<lparr>password_field = replicate 33 NUL\<rparr>"
  have t: "tolower CHR ''n'' = CHR ''n''"
    by (simp add: tolower_fold lowercase_fold_def)
  have n: "snd (draw_chars numeric_char n s) = s\<lparr>draws := (\<lambda>k. draws s (k + n))\<rparr>" for n s
  proof (induction n arbitrary: s)
    case 0
    show ?case by simp
  next
    case (Suc n)
    let ?s1 = "s\<lparr>draws := (\<lambda>k. draws s (Suc k))\<rparr>"
    have p: "snd (numeric_char s) = ?s1"
      by (simp add: numeric_char_def rand_def)
    have "snd (draw_chars numeric_char (Suc n) s) = snd (draw_chars numeric_char n ?s1)"
      using p by (cases "numeric_char s") (simp split: prod.splits)
    then show ?case by (simp add: Suc)
  qed
  have "generate_numeric (replicate 33 NUL) 6 (process_start prng) =
      Some (fst (draw_chars numeric_char 6 (process_start prng)) @ NUL # drop 7 (replicate 33 NUL),
            snd (draw_chars numeric_char 6 (process_start prng)))"
    using generate_terminated [of 6 "replicate 33 NUL" numeric_char "process_start prng"]
    by (simp add: generate_numeric_def)
  moreover have "snd (draw_chars numeric_char 6 (process_start prng)) =
      (process_start prng)\<lparr>draws := (\<lambda>k. prng 1 (k + 6))\<rparr>"
    by (simp add: n process_start_def)
  ultimately show ?thesis
    by (simp add: handle_password_request_def atoi_six t generate_password_def process_start_def)
qed


section \<open>Properties of the wire records\<close>

lemma request_of_bytes_inverse: "request_of_bytes (request_bytes r) = r"
  by (simp add: request_bytes_def request_of_bytes_def)

lemma length_request_bytes: "request_ok r \<Longrightarrow> length (request_bytes r) = sizeof_PasswordRequest"
  by (simp add: request_ok_def request_bytes_def sizeof_PasswordRequest_def)

lemma length_recvfrom: "length (snd (recvfrom incoming mem)) = length mem"
  by (cases incoming) (simp_all add: recvfrom_def)

text \<open>
  C6. A datagram whose size is not that of the record is not refused. The server takes a
  datagram of one byte as a request: \<open>receive_request\<close> returns true, and the record has
  the new type byte in front of the length field that was there before. A datagram of no
  bytes is taken too and leaves the record as it was. The client takes a datagram of three
  bytes as a response, with the old bytes behind them.
\<close>

theorem receive_short_datagram_accepted:
  "int (length ''n'') \<noteq> int sizeof_PasswordRequest
   \<and> receive_request (Some ''n'')
        \<lparr>type_field = CHR ''m'', length_field = ''16'' @ replicate 1022 NUL\<rparr> =
      (True, \<lparr>type_field = CHR ''n'', length_field = ''16'' @ replicate 1022 NUL\<rparr>)
   \<and> receive_request (Some [])
        \<lparr>type_field = CHR ''m'', length_field = ''16'' @ replicate 1022 NUL\<rparr> =
      (True, \<lparr>type_field = CHR ''m'', length_field = ''16'' @ replicate 1022 NUL\<rparr>)
   \<and> int (length ''abc'') \<noteq> int sizeof_PasswordResponse
   \<and> receive_response (Some ''abc'') \<lparr>password_field = replicate 33 CHR ''?''\<rparr> =
      (True, \<lparr>password_field = ''abc'' @ replicate 30 CHR ''?''\<rparr>)"
  by (simp add: sizeof_PasswordRequest_def sizeof_PasswordResponse_def BUFFER_SIZE_def
      MAX_PASSWORD_LENGTH_def receive_request_def receive_response_def recvfrom_def
      request_bytes_def request_of_bytes_def response_bytes_def response_of_bytes_def)

text \<open>
  C8. A request record that \<open>send_request\<close> puts on the network and \<open>receive_request\<close>
  takes from it arrives as the same record, type and length field alike, whatever the
  receiving record held before.
\<close>

theorem request_round_trip:
  assumes "request_ok request" and "request_ok request_msg"
  shows "fst (send_request True request)
     \<and> receive_request (snd (send_request True request)) request_msg = (True, request)"
proof -
  have l: "length (request_bytes request) = sizeof_PasswordRequest"
    using assms(1) by (rule length_request_bytes)
  have l': "length (request_bytes request_msg) = sizeof_PasswordRequest"
    using assms(2) by (rule length_request_bytes)
  have s: "send_request True request = (True, Some (request_bytes request))"
    by (simp add: send_request_def sendto_def l)
  have "recvfrom (Some (request_bytes request)) (request_bytes request_msg) =
      (int sizeof_PasswordRequest, request_bytes request)"
    by (simp add: recvfrom_def l l')
  then have "receive_request (Some (request_bytes request)) request_msg = (True, request)"
    by (simp add: receive_request_def request_of_bytes_inverse)
  with s show ?thesis by simp
qed

theorem request_round_trip_witness:
  "request_ok \<lparr>type_field = CHR ''s'', length_field = ''16'' @ replicate 1022 NUL\<rparr>
   \<and> request_ok \<lparr>type_field = CHR ''?'', length_field = replicate 1024 CHR ''?''\<rparr>
   \<and> fst (send_request True
          \<lparr>type_field = CHR ''s'', length_field = ''16'' @ replicate 1022 NUL\<rparr>)
   \<and> receive_request
        (snd (send_request True
           \<lparr>type_field = CHR ''s'', length_field = ''16'' @ replicate 1022 NUL\<rparr>))
        \<lparr>type_field = CHR ''?'', length_field = replicate 1024 CHR ''?''\<rparr> =
      (True, \<lparr>type_field = CHR ''s'', length_field = ''16'' @ replicate 1022 NUL\<rparr>)"
  using request_round_trip
    [of "\<lparr>type_field = CHR ''s'', length_field = ''16'' @ replicate 1022 NUL\<rparr>"
        "\<lparr>type_field = CHR ''?'', length_field = replicate 1024 CHR ''?''\<rparr>"]
  by (simp add: request_ok_def BUFFER_SIZE_def)

end
